theory Spec2Isabelle
  imports Main "HOL-Library.AList"
begin

section \<open>Data model\<close>

text \<open>
  The program is \<^verbatim>\<open>golang/main.go\<close>. Go strings are byte sequences, modelled as
  \<^typ>\<open>string\<close>; the record under construction is a Go \<^verbatim>\<open>map[string]string\<close>,
  modelled as a partial map.
\<close>

type_synonym gomap = "string \<rightharpoonup> string"

record Config =
  ReservedWords :: "string list"
  RecordStart :: string

text \<open>Reading \<^verbatim>\<open>m[k]\<close> in Go gives the empty string for a key that is not present.\<close>

definition lookup :: "gomap \<Rightarrow> string \<Rightarrow> string" where
  "lookup m k = (case m k of None \<Rightarrow> [] | Some v \<Rightarrow> v)"

subsection \<open>Standard-library functions\<close>

text \<open>
  \<^verbatim>\<open>strings.TrimSpace\<close>, \<^verbatim>\<open>strings.EqualFold\<close> and \<^verbatim>\<open>filepath.Join\<close> are not code
  of the program: they depend on Unicode tables and on the operating system. The
  program is modelled over any implementation of the three, passed as \<open>L\<close>; the general
  theorems hold for every \<open>L\<close>, hence for Go's.
\<close>

record stdlib =
  TrimSpace :: "string \<Rightarrow> string"
  EqualFold :: "string \<Rightarrow> string \<Rightarrow> bool"
  PathJoin :: "string \<Rightarrow> string \<Rightarrow> string"

text \<open>
  \<^verbatim>\<open>strings.Split(s, sep)\<close> for a one-byte separator: the pieces between separators, never
  an empty list (\<^verbatim>\<open>Split("", ":")\<close> is the one-element list holding the empty string).
  A byte that is not the separator goes in front of the first piece of the rest; the
  rest always has a first piece (lemma \<open>Split_nonempty\<close>).
\<close>

fun Split :: "string \<Rightarrow> char \<Rightarrow> string list" where
  "Split [] sep = [[]]"
| "Split (c # cs) sep =
     (if c = sep then [] # Split cs sep
      else (case Split cs sep of [] \<Rightarrow> [[c]] | p # ps \<Rightarrow> (c # p) # ps))"

text \<open>\<^verbatim>\<open>strings.Join(elems, sep)\<close>.\<close>

fun Join :: "string list \<Rightarrow> string \<Rightarrow> string" where
  "Join [] sep = []"
| "Join [p] sep = p"
| "Join (p # q # ps) sep = p @ sep @ Join (q # ps) sep"

text \<open>\<^verbatim>\<open>strings.ReplaceAll(s, old, new)\<close> for one-byte \<open>old\<close> and \<open>new\<close>.\<close>

definition ReplaceAll :: "string \<Rightarrow> char \<Rightarrow> char \<Rightarrow> string" where
  "ReplaceAll s old new = map (\<lambda>c. if c = old then new else c) s"

text \<open>
  An instance of the library for concrete runs. It agrees with Go on inputs that are
  ASCII throughout: \<^verbatim>\<open>TrimSpace\<close> strips the six ASCII white-space bytes,
  \<^verbatim>\<open>EqualFold\<close> compares byte by byte up to the case of \<^verbatim>\<open>A-Z\<close>, and \<^verbatim>\<open>Join\<close> puts one
  slash between two non-empty elements (Unix, elements already clean).
\<close>

definition asciiSpace :: "char \<Rightarrow> bool" where
  "asciiSpace c = (c \<in> set [CHR 0x09, CHR 0x0A, CHR 0x0B, CHR 0x0C, CHR 0x0D, CHR 0x20])"

definition ascii_TrimSpace :: "string \<Rightarrow> string" where
  "ascii_TrimSpace s = rev (dropWhile asciiSpace (rev (dropWhile asciiSpace s)))"

definition ascii_lower :: "char \<Rightarrow> char" where
  "ascii_lower c =
     (case map_of (zip ''ABCDEFGHIJKLMNOPQRSTUVWXYZ'' ''abcdefghijklmnopqrstuvwxyz'') c of
        Some d \<Rightarrow> d
      | None \<Rightarrow> c)"

definition ascii_EqualFold :: "string \<Rightarrow> string \<Rightarrow> bool" where
  "ascii_EqualFold s t = (map ascii_lower s = map ascii_lower t)"

definition unix_Join :: "string \<Rightarrow> string \<Rightarrow> string" where
  "unix_Join a b = (if a = [] then b else if b = [] then a else a @ ''/'' @ b)"

definition ascii :: stdlib where
  "ascii = \<lparr>TrimSpace = ascii_TrimSpace, EqualFold = ascii_EqualFold, PathJoin = unix_Join\<rparr>"

subsection \<open>Input stream\<close>

text \<open>
  The input is what the gzip reader delivers: some bytes, then either a clean end of
  file or a read error (a truncated or corrupt archive). \<open>Unopenable\<close> is a file that
  \<^verbatim>\<open>os.Open\<close> or \<^verbatim>\<open>gzip.NewReader\<close> rejects.
\<close>

datatype ending = EOF | Broken

datatype input = Unopenable | Stream string ending

text \<open>
  \<^verbatim>\<open>reader.ReadString('\n')\<close>: the bytes up to and including the first newline, and
  what is left of the stream. \<open>None\<close> when no newline is left: Go then returns the
  remaining bytes together with the error that ended the stream.
\<close>

definition ReadString :: "string \<Rightarrow> (string \<times> string) option" where
  "ReadString s =
     (if CHR 0x0A \<in> set s
      then Some (takeWhile (\<lambda>c. c \<noteq> CHR 0x0A) s @ [CHR 0x0A],
                 tl (dropWhile (\<lambda>c. c \<noteq> CHR 0x0A) s))
      else None)"

subsection \<open>Output effects\<close>

text \<open>
  The effects of a run on the file system are recorded as a trace of the calls that
  succeeded. A file handle is the number of the \<open>OpenFile\<close> event that made it. The
  environment decides which calls fail: \<open>E w e\<close> holds when call \<open>e\<close>, made after the
  trace \<open>w\<close>, fails. A call that fails leaves no event; what a failed write may have
  left in the file is not modelled. Permission bits are left out, and so is the JSON
  text: an \<open>Encode\<close> event stands for the one line \<^verbatim>\<open>json.Encoder.Encode\<close> writes for the
  record.
\<close>

datatype flag = O_APPEND | O_CREATE | O_WRONLY

datatype event =
    MkdirAll string
  | OpenFile string "flag list"
  | Encode nat gomap
  | Close nat

type_synonym trace = "event list"
type_synonym faults = "trace \<Rightarrow> event \<Rightarrow> bool"

datatype err = InputError | ReadError | OpenError | WriteError

definition no_fault :: faults where
  "no_fault w e = False"

text \<open>The paths opened so far, in order; handle \<open>h\<close> is open on \<open>opened w ! h\<close>.\<close>

fun opened :: "trace \<Rightarrow> string list" where
  "opened [] = []"
| "opened (OpenFile p fl # w) = p # opened w"
| "opened (e # w) = opened w"

text \<open>The records encoded, in order, with the handle each went to.\<close>

fun encoded :: "trace \<Rightarrow> (nat \<times> gomap) list" where
  "encoded [] = []"
| "encoded (Encode h r # w) = (h, r) # encoded w"
| "encoded (e # w) = encoded w"

definition emitted :: "trace \<Rightarrow> gomap list" where
  "emitted w = map snd (encoded w)"

text \<open>The handles closed, in order.\<close>

fun closed :: "trace \<Rightarrow> nat list" where
  "closed [] = []"
| "closed (Close h # w) = h # closed w"
| "closed (e # w) = closed w"

text \<open>
  The JSON lines a run appended to the file at \<open>p\<close>, each line standing for the record
  it encodes: every handle is opened with \<open>O_APPEND\<close>, so a write lands at the end of
  the file.
\<close>

definition appended :: "trace \<Rightarrow> string \<Rightarrow> gomap list" where
  "appended w p =
     map snd (filter (\<lambda>(h, r). h < length (opened w) \<and> opened w ! h = p) (encoded w))"

section \<open>The program\<close>

subsection \<open>isReservedWord\<close>

fun anyEqualFold :: "stdlib \<Rightarrow> string list \<Rightarrow> string \<Rightarrow> bool" where
  "anyEqualFold L [] key = False"
| "anyEqualFold L (word # ws) key =
     (if EqualFold L word key then True else anyEqualFold L ws key)"

definition isReservedWord :: "stdlib \<Rightarrow> Config \<Rightarrow> string \<Rightarrow> bool" where
  "isReservedWord L config key = anyEqualFold L (ReservedWords config) key"

subsection \<open>writeRecordToJSONL\<close>

text \<open>
  \<open>jsonlFiles\<close> is the map from output path to open handle, an association list here
  so that the closing loop can range over it. Lines 200 to 204 compute the language,
  206 to 208 the folder and the file; the result of \<^verbatim>\<open>os.MkdirAll\<close> is dropped by the
  program, so a failure there changes nothing.
\<close>

definition languageOf :: "gomap \<Rightarrow> string" where
  "languageOf record =
     (let language = ReplaceAll (lookup record ''WARC-Identified-Content-Language'') (CHR '','') (CHR ''_'')
      in if language = [] then ''eng'' else language)"

definition outputFileOf :: "stdlib \<Rightarrow> string \<Rightarrow> gomap \<Rightarrow> string" where
  "outputFileOf L outputDir record =
     PathJoin L (PathJoin L outputDir (languageOf record)) ''output.jsonl''"

definition encodeTo :: "faults \<Rightarrow> nat \<Rightarrow> gomap \<Rightarrow> (string \<times> nat) list \<Rightarrow> trace
    \<Rightarrow> err option \<times> (string \<times> nat) list \<times> trace" where
  "encodeTo E jsonlFile record jsonlFiles w =
     (if E w (Encode jsonlFile record) then (Some WriteError, jsonlFiles, w)
      else (None, jsonlFiles, w @ [Encode jsonlFile record]))"

definition writeRecordToJSONL :: "stdlib \<Rightarrow> faults \<Rightarrow> gomap \<Rightarrow> string \<Rightarrow> (string \<times> nat) list \<Rightarrow> trace
    \<Rightarrow> err option \<times> (string \<times> nat) list \<times> trace" where
  "writeRecordToJSONL L E record outputDir jsonlFiles w =
     (let outputFolder = PathJoin L outputDir (languageOf record);
          w1 = (if E w (MkdirAll outputFolder) then w else w @ [MkdirAll outputFolder]);
          outputFile = PathJoin L outputFolder ''output.jsonl''
      in case map_of jsonlFiles outputFile of
           Some jsonlFile \<Rightarrow> encodeTo E jsonlFile record jsonlFiles w1
         | None \<Rightarrow>
             if E w1 (OpenFile outputFile [O_APPEND, O_CREATE, O_WRONLY])
             then (Some OpenError, jsonlFiles, w1)
             else encodeTo E (length (opened w1)) record
                    (AList.update outputFile (length (opened w1)) jsonlFiles)
                    (w1 @ [OpenFile outputFile [O_APPEND, O_CREATE, O_WRONLY]]))"

subsection \<open>processFile\<close>

text \<open>Lines 163 to 173: what a line that is not the record start does to the record.\<close>

definition processLine :: "stdlib \<Rightarrow> Config \<Rightarrow> string \<Rightarrow> gomap \<Rightarrow> gomap" where
  "processLine L config line record =
     (let parts = Split line (CHR '':'');
          key = hd parts
      in if length parts \<ge> 2 \<and> isReservedWord L config key
         then record(key \<mapsto> TrimSpace L (Join (tl parts) '':''))
         else record(''data'' \<mapsto> lookup record ''data'' @ line))"

text \<open>
  The loop of lines 153 to 183. It ends with \<open>Inl\<close> where the program returns an error
  from inside the loop, and with \<open>Inr\<close> where it breaks at the end of the file.
\<close>

function processLoop :: "stdlib \<Rightarrow> faults \<Rightarrow> Config \<Rightarrow> string \<Rightarrow> string \<Rightarrow> ending
    \<Rightarrow> gomap \<Rightarrow> (string \<times> nat) list \<Rightarrow> trace
    \<Rightarrow> (err \<times> trace) + (gomap \<times> (string \<times> nat) list \<times> trace)" where
  "processLoop L E config outputDir s fin record jsonlFiles w =
     (case ReadString s of
        None \<Rightarrow> (case fin of
                   EOF \<Rightarrow> Inr (record, jsonlFiles, w)
                 | Broken \<Rightarrow> Inl (ReadError, w))
      | Some (line, rest) \<Rightarrow>
          if TrimSpace L line \<noteq> RecordStart config
          then processLoop L E config outputDir rest fin
                 (processLine L config line record) jsonlFiles w
          else (case writeRecordToJSONL L E record outputDir jsonlFiles w of
                  (Some e, jsonlFiles', w') \<Rightarrow> Inl (e, w')
                | (None, jsonlFiles', w') \<Rightarrow>
                    processLoop L E config outputDir rest fin Map.empty jsonlFiles' w'))"
  by pat_completeness auto
termination
proof (relation "measure (\<lambda>(L, E, config, outputDir, s, fin, record, jsonlFiles, w). length s)")
  have shorter: "length rest < length s" if "ReadString s = Some (line, rest)"
    for s line rest
  proof -
    from that have "s \<noteq> []" and "rest = tl (dropWhile (\<lambda>c. c \<noteq> CHR 0x0A) s)"
      by (auto simp: ReadString_def split: if_splits)
    moreover have "length (dropWhile (\<lambda>c. c \<noteq> CHR 0x0A) s) \<le> length s"
      by (rule length_dropWhile_le)
    ultimately show ?thesis
      by (cases s) auto
  qed
  show "wf (measure (\<lambda>(L, E, config, outputDir, s, fin, record, jsonlFiles, w). length s))"
    by simp
  show "((L, E, config, outputDir, rest, fin, processLine L config line r, jf, w),
         (L, E, config, outputDir, s, fin, r, jf, w))
        \<in> measure (\<lambda>(L, E, config, outputDir, s, fin, record, jsonlFiles, w). length s)"
    if "ReadString s = Some x" "(line, rest) = x"
    for L :: stdlib and E :: faults and config :: Config and outputDir :: string
      and s and fin :: ending and r and jf :: "(string \<times> nat) list" and w :: trace and x line rest
    using that shorter [of s line rest] by simp
  show "((L, E, config, outputDir, rest, fin, Map.empty, jf', w'),
         (L, E, config, outputDir, s, fin, r, jf, w))
        \<in> measure (\<lambda>(L, E, config, outputDir, s, fin, record, jsonlFiles, w). length s)"
    if "ReadString s = Some x" "(line, rest) = x"
    for L :: stdlib and E :: faults and config :: Config and outputDir :: string
      and s and fin :: ending and r :: gomap and jf :: "(string \<times> nat) list" and w :: trace
      and x line rest and jf' :: "(string \<times> nat) list" and w' :: trace
    using that shorter [of s line rest] by simp
qed

declare processLoop.simps [simp del]

text \<open>
  Lines 136 to 197. The run starts with no output handle and an empty trace; its
  result is the error returned (\<open>None\<close> for \<^verbatim>\<open>nil\<close>) and the trace it leaves. The
  closing loop of lines 192 to 194 ranges over a Go map, in an order Go leaves open;
  here the handles are closed in the order they were opened. The result of \<^verbatim>\<open>Close\<close> is
  dropped by the program. The log line of line 185 is not part of the trace.
\<close>

definition processFile :: "stdlib \<Rightarrow> faults \<Rightarrow> Config \<Rightarrow> string \<Rightarrow> input \<Rightarrow> err option \<times> trace" where
  "processFile L E config outputDir inp =
     (case inp of
        Unopenable \<Rightarrow> (Some InputError, [])
      | Stream s fin \<Rightarrow>
          (case processLoop L E config outputDir s fin Map.empty [] [] of
             Inl (e, w) \<Rightarrow> (Some e, w)
           | Inr (record, jsonlFiles, w) \<Rightarrow>
               (case writeRecordToJSONL L E record outputDir jsonlFiles w of
                  (Some e, jsonlFiles', w') \<Rightarrow> (Some e, w')
                | (None, jsonlFiles', w') \<Rightarrow> (None, w' @ map (\<lambda>(p, h). Close h) jsonlFiles'))))"

section \<open>Notions used to state the properties\<close>

text \<open>
  A line as \<open>ReadString\<close> delivers it: some bytes without a newline, then the newline.
\<close>

definition isLine :: "string \<Rightarrow> bool" where
  "isLine l = (l \<noteq> [] \<and> last l = CHR 0x0A \<and> CHR 0x0A \<notin> set (butlast l))"

text \<open>
  The complete lines of a stream, in order. The bytes after the last newline form no
  line.
\<close>

fun complete_lines :: "string \<Rightarrow> string list" where
  "complete_lines [] = []"
| "complete_lines (c # cs) =
     (if c = CHR 0x0A then [c] # complete_lines cs
      else (case complete_lines cs of [] \<Rightarrow> [] | l # ls \<Rightarrow> (c # l) # ls))"

text \<open>The test of line 162: the trimmed line is the record start.\<close>

definition isRecordStart :: "stdlib \<Rightarrow> Config \<Rightarrow> string \<Rightarrow> bool" where
  "isRecordStart L config line = (TrimSpace L line = RecordStart config)"

text \<open>
  The lines cut at every record-start line, which belongs to no piece: \<open>n\<close> such lines
  give \<open>n + 1\<close> pieces, empty ones included.
\<close>

fun segments :: "stdlib \<Rightarrow> Config \<Rightarrow> string list \<Rightarrow> string list list" where
  "segments L config [] = [[]]"
| "segments L config (l # ls) =
     (if isRecordStart L config l then [] # segments L config ls
      else (case segments L config ls of [] \<Rightarrow> [[l]] | seg # segs \<Rightarrow> (l # seg) # segs))"

text \<open>The record after the lines \<open>ls\<close> have been processed in order, starting from \<open>r\<close>.\<close>

definition accumulate :: "stdlib \<Rightarrow> Config \<Rightarrow> gomap \<Rightarrow> string list \<Rightarrow> gomap" where
  "accumulate L config r ls = foldl (\<lambda>r l. processLine L config l r) r ls"

text \<open>
  The key of the record that a line assigns: the text before the first colon at line
  167, \<^verbatim>\<open>"data"\<close> at line 172.
\<close>

definition assignedKey :: "stdlib \<Rightarrow> Config \<Rightarrow> string \<Rightarrow> string" where
  "assignedKey L config line =
     (if CHR '':'' \<in> set line \<and> isReservedWord L config (takeWhile (\<lambda>c. c \<noteq> CHR '':'') line)
      then takeWhile (\<lambda>c. c \<noteq> CHR '':'') line else ''data'')"

text \<open>
  The loop of \<open>processFile\<close> over lines already cut: \<open>processLoop\<close> on a stream is
  \<open>linesLoop\<close> on its complete lines (lemma \<open>processLoop_linesLoop\<close>).
\<close>

fun linesLoop :: "stdlib \<Rightarrow> faults \<Rightarrow> Config \<Rightarrow> string \<Rightarrow> string list \<Rightarrow> ending
    \<Rightarrow> gomap \<Rightarrow> (string \<times> nat) list \<Rightarrow> trace
    \<Rightarrow> (err \<times> trace) + (gomap \<times> (string \<times> nat) list \<times> trace)" where
  "linesLoop L E config outputDir [] fin r jf w =
     (case fin of EOF \<Rightarrow> Inr (r, jf, w) | Broken \<Rightarrow> Inl (ReadError, w))"
| "linesLoop L E config outputDir (line # ls) fin r jf w =
     (if TrimSpace L line \<noteq> RecordStart config
      then linesLoop L E config outputDir ls fin (processLine L config line r) jf w
      else (case writeRecordToJSONL L E r outputDir jf w of
              (Some e, jf', w') \<Rightarrow> Inl (e, w')
            | (None, jf', w') \<Rightarrow> linesLoop L E config outputDir ls fin Map.empty jf' w'))"

text \<open>
  The state of the output side between two calls: the handle map lists the paths
  opened, each with the number of its \<open>OpenFile\<close> event, no path twice; every record
  encoded went to a handle opened on the record's own output file; opening was always
  with the three flags of line 214.
\<close>

definition cache_ok :: "(string \<times> nat) list \<Rightarrow> trace \<Rightarrow> bool" where
  "cache_ok jf w = (jf = zip (opened w) [0..<length (opened w)] \<and> distinct (opened w))"

definition routed_ok :: "stdlib \<Rightarrow> string \<Rightarrow> trace \<Rightarrow> bool" where
  "routed_ok L outputDir w =
     list_all (\<lambda>(h, r). h < length (opened w) \<and> opened w ! h = outputFileOf L outputDir r) (encoded w)"

definition written_ok :: "trace \<Rightarrow> bool" where
  "written_ok w = list_all (\<lambda>h. h \<in> fst ` set (encoded w)) [0..<length (opened w)]"

fun flags_ok :: "trace \<Rightarrow> bool" where
  "flags_ok [] = True"
| "flags_ok (OpenFile p fl # w) = (fl = [O_APPEND, O_CREATE, O_WRONLY] \<and> flags_ok w)"
| "flags_ok (e # w) = flags_ok w"

text \<open>Configurations and inputs of the examples.\<close>

definition cfgAB :: Config where
  "cfgAB = \<lparr>ReservedWords = [''A'', ''B''], RecordStart = ''---''\<rparr>"

definition cfgA :: Config where
  "cfgA = \<lparr>ReservedWords = [''A''], RecordStart = ''---''\<rparr>"

definition cfgWARC :: Config where
  "cfgWARC = \<lparr>ReservedWords = [''WARC-Type'', ''WARC-Identified-Content-Language''],
              RecordStart = ''WARC/1.0''\<rparr>"

definition inputLang :: string where
  "inputLang = ''WARC-Identified-Content-Language: eng,fra\<newline>WARC/1.0\<newline>''"

text \<open>An environment in which every write after the first one fails (a full disk).\<close>

definition second_write_fails :: faults where
  "second_write_fails w e = (case e of Encode h r \<Rightarrow> encoded w \<noteq> [] | _ \<Rightarrow> False)"

section \<open>Library facts\<close>

lemma Split_nonempty: "Split s c \<noteq> []"
  by (induction s) (auto split: list.splits)

lemma Split_Cons:
  "Split (x # xs) c =
     (if x = c then [] # Split xs c else (x # hd (Split xs c)) # tl (Split xs c))"
  using Split_nonempty [of xs c] by (cases "Split xs c") auto

lemma hd_Split: "hd (Split s c) = takeWhile (\<lambda>x. x \<noteq> c) s"
  by (induction s) (auto simp: Split_Cons simp del: Split.simps(2))

lemma length_Split: "(2 \<le> length (Split s c)) = (c \<in> set s)"
proof (induction s)
  case Nil
  show ?case by simp
next
  case (Cons x xs)
  have "Suc 0 \<le> length (Split xs c)"
    using Split_nonempty [of xs c] by (cases "Split xs c") auto
  with Cons show ?case
    by (auto simp: Split_Cons simp del: Split.simps(2))
qed

lemma Join_Cons: "ps \<noteq> [] \<Longrightarrow> Join (p # ps) sep = p @ sep @ Join ps sep"
  by (cases ps) auto

lemma Join_push: "ps \<noteq> [] \<Longrightarrow> Join ((x # hd ps) # tl ps) sep = x # Join ps sep"
  by (cases ps; cases "tl ps") auto

lemma Join_Split: "Join (Split s c) [c] = s"
  by (induction s) (auto simp: Split_Cons Join_Cons Join_push Split_nonempty simp del: Split.simps(2))

lemma Join_tl_Split:
  "c \<in> set s \<Longrightarrow> Join (tl (Split s c)) [c] = tl (dropWhile (\<lambda>x. x \<noteq> c) s)"
  by (induction s) (auto simp: Split_Cons Join_Split simp del: Split.simps(2))

lemma anyEqualFold_iff:
  "anyEqualFold L ws key = (\<exists>word \<in> set ws. EqualFold L word key)"
  by (induction ws) auto

lemma processLine_field:
  assumes "CHR '':'' \<in> set line"
    and "isReservedWord L config (takeWhile (\<lambda>c. c \<noteq> CHR '':'') line)"
  shows "processLine L config line r =
    r(takeWhile (\<lambda>c. c \<noteq> CHR '':'') line \<mapsto> TrimSpace L (Join (tl (Split line (CHR '':''))) '':''))"
  using assms by (simp add: processLine_def Let_def hd_Split length_Split)


lemma ReadString_SomeD:
  assumes "ReadString s = Some (line, rest)"
  shows "\<exists>l. CHR 0x0A \<notin> set l \<and> line = l @ [CHR 0x0A] \<and> s = l @ CHR 0x0A # rest"
proof -
  let ?l = "takeWhile (\<lambda>c. c \<noteq> CHR 0x0A) s"
  let ?d = "dropWhile (\<lambda>c. c \<noteq> CHR 0x0A) s"
  from assms have mem: "CHR 0x0A \<in> set s" and line: "line = ?l @ [CHR 0x0A]" and rest: "rest = tl ?d"
    by (auto simp: ReadString_def split: if_splits)
  from mem have "?d \<noteq> []" by simp
  moreover from this have "hd ?d = CHR 0x0A"
    using hd_dropWhile [of "\<lambda>c. c \<noteq> CHR 0x0A" s] by simp
  ultimately have "?d = CHR 0x0A # rest"
    using rest by (cases ?d) auto
  then have "s = ?l @ CHR 0x0A # rest"
    using takeWhile_dropWhile_id [of "\<lambda>c. c \<noteq> CHR 0x0A" s] by simp
  moreover have "CHR 0x0A \<notin> set ?l"
    by (auto dest: set_takeWhileD)
  ultimately show ?thesis using line by blast
qed

lemma ReadString_line:
  "CHR 0x0A \<notin> set l \<Longrightarrow> ReadString (l @ CHR 0x0A # rest) = Some (l @ [CHR 0x0A], rest)"
  by (induction l) (auto simp: ReadString_def)

lemma ReadString_none: "CHR 0x0A \<notin> set t \<Longrightarrow> ReadString t = None"
  by (simp add: ReadString_def)

lemma processLoop_end:
  "CHR 0x0A \<notin> set t \<Longrightarrow>
   processLoop L E config outputDir t fin r jf w =
     (case fin of EOF \<Rightarrow> Inr (r, jf, w) | Broken \<Rightarrow> Inl (ReadError, w))"
  by (subst processLoop.simps) (simp add: ReadString_none)

lemma processLoop_read:
  "ReadString s = Some (line, rest) \<Longrightarrow>
   processLoop L E config outputDir s fin r jf w =
     (if TrimSpace L line \<noteq> RecordStart config
      then processLoop L E config outputDir rest fin (processLine L config line r) jf w
      else (case writeRecordToJSONL L E r outputDir jf w of
              (Some e, jf', w') \<Rightarrow> Inl (e, w')
            | (None, jf', w') \<Rightarrow> processLoop L E config outputDir rest fin Map.empty jf' w'))"
  by (subst processLoop.simps) simp

section \<open>The loop, line by line\<close>

lemma complete_lines_none: "CHR 0x0A \<notin> set t \<Longrightarrow> complete_lines t = []"
  by (induction t) auto

lemma complete_lines_line:
  "CHR 0x0A \<notin> set l \<Longrightarrow> complete_lines (l @ CHR 0x0A # rest) = (l @ [CHR 0x0A]) # complete_lines rest"
  by (induction l) auto

lemma complete_lines_tail:
  "CHR 0x0A \<notin> set t \<Longrightarrow> complete_lines (s @ t) = complete_lines s"
  by (induction s) (auto simp: complete_lines_none)

lemma complete_lines_read:
  "ReadString s = Some (line, rest) \<Longrightarrow> complete_lines s = line # complete_lines rest"
  by (auto dest!: ReadString_SomeD simp: complete_lines_line)

lemma complete_lines_concat:
  "list_all isLine ls \<Longrightarrow> CHR 0x0A \<notin> set t \<Longrightarrow> complete_lines (concat ls @ t) = ls"
proof (induction ls)
  case Nil
  then show ?case by (simp add: complete_lines_none)
next
  case (Cons l ls)
  from Cons.prems have "isLine l" by simp
  then have l: "l = butlast l @ [CHR 0x0A]" and nl: "CHR 0x0A \<notin> set (butlast l)"
    by (auto simp: isLine_def dest: append_butlast_last_id [symmetric])
  have "complete_lines (concat (l # ls) @ t) = complete_lines (butlast l @ CHR 0x0A # (concat ls @ t))"
    by (subst l) simp
  also have "\<dots> = (butlast l @ [CHR 0x0A]) # complete_lines (concat ls @ t)"
    using nl by (rule complete_lines_line)
  finally show ?case
    using Cons l by simp
qed

lemma processLoop_linesLoop:
  "processLoop L E config outputDir s fin r jf w =
   linesLoop L E config outputDir (complete_lines s) fin r jf w"
proof (induction L E config outputDir s fin r jf w rule: processLoop.induct)
  case (1 L E config outputDir s fin r jf w)
  show ?case
  proof (cases "ReadString s")
    case None
    then have "CHR 0x0A \<notin> set s"
      by (simp add: ReadString_def split: if_splits)
    then show ?thesis
      by (simp add: processLoop_end complete_lines_none)
  next
    case (Some x)
    obtain line rest where x: "x = (line, rest)"
      by (cases x)
    with Some have rd: "ReadString s = Some (line, rest)"
      by simp
    show ?thesis
    proof (cases "TrimSpace L line \<noteq> RecordStart config")
      case True
      with "1.IH"(1) [OF Some x [symmetric]] rd show ?thesis
        by (simp add: processLoop_read complete_lines_read)
    next
      case False
      show ?thesis
      proof (cases "writeRecordToJSONL L E r outputDir jf w")
        case (fields e jf' w')
        show ?thesis
        proof (cases e)
          case None
          with "1.IH"(2) [OF Some x [symmetric] False fields [symmetric, unfolded None]] False rd fields
          show ?thesis
            by (simp add: processLoop_read complete_lines_read)
        next
          case (Some e')
          with False rd fields show ?thesis
            by (simp add: processLoop_read complete_lines_read)
        qed
      qed
    qed
  qed
qed

section \<open>Invariants of the output side\<close>

lemma opened_append: "opened (w @ v) = opened w @ opened v"
  by (induction w rule: opened.induct) auto

lemma encoded_append: "encoded (w @ v) = encoded w @ encoded v"
  by (induction w rule: encoded.induct) auto

lemma closed_append: "closed (w @ v) = closed w @ closed v"
  by (induction w rule: closed.induct) auto

lemma flags_ok_append: "flags_ok (w @ v) = (flags_ok w \<and> flags_ok v)"
  by (induction w rule: flags_ok.induct) auto

lemma emitted_append: "emitted (w @ v) = emitted w @ emitted v"
  by (simp add: emitted_def encoded_append)

lemma opened_Close: "opened (map (\<lambda>(p, h). Close h) jf) = []"
  by (induction jf) auto

lemma encoded_Close: "encoded (map (\<lambda>(p, h). Close h) jf) = []"
  by (induction jf) auto

lemma closed_Close: "closed (map (\<lambda>(p, h). Close h) jf) = map snd jf"
  by (induction jf) auto

lemma flags_ok_Close: "flags_ok (map (\<lambda>(p, h). Close h) jf)"
  by (induction jf) auto

lemma update_fresh: "k \<notin> fst ` set ps \<Longrightarrow> AList.update k v ps = ps @ [(k, v)]"
  by (induction ps) auto

lemma zip_upt_snoc:
  "zip (xs @ [p]) [0..<Suc (length xs)] = zip xs [0..<length xs] @ [(p, length xs)]"
  by simp

lemma fst_zip_upt: "fst ` set (zip xs [0..<length xs]) = set xs"
proof -
  have "map fst (zip xs [0..<length xs]) = xs"
    by simp
  then have "set (map fst (zip xs [0..<length xs])) = set xs"
    by simp
  then show ?thesis
    by (simp only: set_map)
qed

lemma snd_zip_upt: "map snd (zip xs [0..<length xs]) = [0..<length xs]"
  by simp

lemma map_of_zip_upt_None: "(map_of (zip xs [0..<length xs]) p = None) = (p \<notin> set xs)"
  by (simp add: map_of_eq_None_iff fst_zip_upt)

lemma map_of_zip_upt_Some:
  assumes "map_of (zip xs [0..<length xs]) p = Some h"
  shows "h < length xs \<and> xs ! h = p"
proof -
  from assms have "(p, h) \<in> set (zip xs [0..<length xs])"
    by (rule map_of_SomeD)
  then show ?thesis
    by (auto simp: in_set_zip)
qed

lemma routed_ok_grow:
  "routed_ok L outputDir w \<Longrightarrow> opened w' = opened w @ ps \<Longrightarrow> encoded w' = encoded w \<Longrightarrow>
   routed_ok L outputDir w'"
  by (auto simp: routed_ok_def list_all_iff nth_append)

lemma routed_ok_encode:
  "routed_ok L outputDir w \<Longrightarrow> h < length (opened w) \<Longrightarrow> opened w ! h = outputFileOf L outputDir r \<Longrightarrow>
   routed_ok L outputDir (w @ [Encode h r])"
  by (auto simp: routed_ok_def list_all_iff opened_append encoded_append)

lemma writeRecord_inv:
  assumes "cache_ok jf w" and "routed_ok L outputDir w" and "flags_ok w"
    and "writeRecordToJSONL L E r outputDir jf w = (e, jf', w')"
  shows "cache_ok jf' w' \<and> routed_ok L outputDir w' \<and> flags_ok w' \<and> closed w' = closed w"
proof -
  define d where "d = PathJoin L outputDir (languageOf r)"
  define p where "p = PathJoin L d ''output.jsonl''"
  define w1 where "w1 = (if E w (MkdirAll d) then w else w @ [MkdirAll d])"
  have p: "p = outputFileOf L outputDir r"
    by (simp add: p_def d_def outputFileOf_def)
  have o1: "opened w1 = opened w" and e1: "encoded w1 = encoded w" and c1: "closed w1 = closed w"
    and f1: "flags_ok w1"
    using assms(3) by (auto simp: w1_def opened_append encoded_append closed_append flags_ok_append)
  have k1: "cache_ok jf w1"
    using assms(1) o1 by (simp add: cache_ok_def)
  have r1: "routed_ok L outputDir w1"
    using assms(2) o1 e1 by (auto simp: routed_ok_def)
  have "writeRecordToJSONL L E r outputDir jf w =
      (case map_of jf p of
         Some h \<Rightarrow> encodeTo E h r jf w1
       | None \<Rightarrow>
           if E w1 (OpenFile p [O_APPEND, O_CREATE, O_WRONLY]) then (Some OpenError, jf, w1)
           else encodeTo E (length (opened w1)) r (AList.update p (length (opened w1)) jf)
                  (w1 @ [OpenFile p [O_APPEND, O_CREATE, O_WRONLY]]))"
    by (simp only: writeRecordToJSONL_def Let_def d_def p_def w1_def)
  with assms(4) have res: "(e, jf', w') =
      (case map_of jf p of
         Some h \<Rightarrow> encodeTo E h r jf w1
       | None \<Rightarrow>
           if E w1 (OpenFile p [O_APPEND, O_CREATE, O_WRONLY]) then (Some OpenError, jf, w1)
           else encodeTo E (length (opened w1)) r (AList.update p (length (opened w1)) jf)
                  (w1 @ [OpenFile p [O_APPEND, O_CREATE, O_WRONLY]]))"
    by simp
  show ?thesis
  proof (cases "map_of jf p")
    case (Some h)
    from k1 have "jf = zip (opened w1) [0..<length (opened w1)]"
      by (simp add: cache_ok_def)
    with Some have "map_of (zip (opened w1) [0..<length (opened w1)]) p = Some h"
      by simp
    from map_of_zip_upt_Some [OF this] have h: "h < length (opened w1)" "opened w1 ! h = p"
      by simp_all
    from res Some have "(e, jf', w') = encodeTo E h r jf w1"
      by simp
    then have "jf' = jf \<and> (w' = w1 \<or> w' = w1 @ [Encode h r])"
      by (auto simp: encodeTo_def split: if_splits)
    with k1 r1 f1 c1 h p show ?thesis
      by (auto simp: cache_ok_def opened_append closed_append flags_ok_append
          intro: routed_ok_encode)
  next
    case None
    with k1 have fresh: "p \<notin> set (opened w1)"
      by (simp add: cache_ok_def map_of_zip_upt_None)
    let ?n = "length (opened w1)"
    let ?w2 = "w1 @ [OpenFile p [O_APPEND, O_CREATE, O_WRONLY]]"
    have upd: "AList.update p ?n jf = zip (opened ?w2) [0..<length (opened ?w2)]"
      using k1 fresh by (simp add: cache_ok_def update_fresh fst_zip_upt opened_append)
    have k2: "cache_ok (AList.update p ?n jf) ?w2"
      using k1 fresh upd by (simp add: cache_ok_def opened_append)
    have r2: "routed_ok L outputDir ?w2"
      using r1 by (rule routed_ok_grow) (simp_all add: opened_append encoded_append)
    have f2: "flags_ok ?w2" and c2: "closed ?w2 = closed w"
      using f1 c1 by (simp_all add: flags_ok_append closed_append)
    have h2: "?n < length (opened ?w2)" "opened ?w2 ! ?n = p"
      by (simp_all add: opened_append)
    show ?thesis
    proof (cases "E w1 (OpenFile p [O_APPEND, O_CREATE, O_WRONLY])")
      case True
      with res None k1 r1 f1 c1 show ?thesis
        by simp
    next
      case False
      with res None have "(e, jf', w') = encodeTo E ?n r (AList.update p ?n jf) ?w2"
        by simp
      then have "jf' = AList.update p ?n jf \<and> (w' = ?w2 \<or> w' = ?w2 @ [Encode ?n r])"
        by (auto simp: encodeTo_def split: if_splits)
      moreover have "routed_ok L outputDir (?w2 @ [Encode ?n r])"
        using r2 h2 p by (intro routed_ok_encode) simp_all
      moreover have "cache_ok (AList.update p ?n jf) (?w2 @ [Encode ?n r])"
        using k2 by (simp add: cache_ok_def opened_append)
      ultimately show ?thesis
        using k2 r2 f2 c2 by (auto simp: flags_ok_append closed_append)
    qed
  qed
qed

lemma linesLoop_inv:
  assumes "cache_ok jf w" and "routed_ok L outputDir w" and "flags_ok w"
  shows "case linesLoop L E config outputDir ls fin r jf w of
           Inl (e, w') \<Rightarrow>
             distinct (opened w') \<and> routed_ok L outputDir w' \<and> flags_ok w' \<and> closed w' = closed w
         | Inr (r', jf', w') \<Rightarrow>
             cache_ok jf' w' \<and> routed_ok L outputDir w' \<and> flags_ok w' \<and> closed w' = closed w"
  using assms
proof (induction ls arbitrary: r jf w)
  case Nil
  then show ?case
    by (cases fin) (simp_all add: cache_ok_def)
next
  case (Cons line ls)
  show ?case
  proof (cases "TrimSpace L line \<noteq> RecordStart config")
    case True
    with Cons.IH [OF Cons.prems] show ?thesis
      by simp
  next
    case False
    obtain e jf1 w1 where wr: "writeRecordToJSONL L E r outputDir jf w = (e, jf1, w1)"
      by (cases "writeRecordToJSONL L E r outputDir jf w")
    from writeRecord_inv [OF Cons.prems wr]
    have inv1: "cache_ok jf1 w1" "routed_ok L outputDir w1" "flags_ok w1" and c1: "closed w1 = closed w"
      by simp_all
    show ?thesis
    proof (cases e)
      case None
      with Cons.IH [OF inv1, of Map.empty] False wr c1 show ?thesis
        by (auto split: sum.splits prod.splits)
    next
      case (Some e')
      with False wr inv1 c1 show ?thesis
        by (simp add: cache_ok_def)
    qed
  qed
qed

lemma cache_ok_start: "cache_ok [] []" and routed_ok_start: "routed_ok L outputDir []"
  by (simp_all add: cache_ok_def routed_ok_def)

lemma processFile_inv:
  "distinct (opened (snd (processFile L E config outputDir inp))) \<and>
   routed_ok L outputDir (snd (processFile L E config outputDir inp)) \<and>
   flags_ok (snd (processFile L E config outputDir inp)) \<and>
   closed (snd (processFile L E config outputDir inp)) =
     (if fst (processFile L E config outputDir inp) = None
      then [0..<length (opened (snd (processFile L E config outputDir inp)))] else [])"
proof (cases inp)
  case Unopenable
  then show ?thesis
    by (simp add: processFile_def routed_ok_def)
next
  case (Stream s fin)
  have flags0: "flags_ok []"
    by simp
  note loop = linesLoop_inv [OF cache_ok_start routed_ok_start flags0,
      of L outputDir E config "complete_lines s" fin Map.empty]
  show ?thesis
  proof (cases "linesLoop L E config outputDir (complete_lines s) fin Map.empty [] []")
    case (Inl x)
    obtain e w where x: "x = (e, w)"
      by (cases x)
    with Inl loop Stream show ?thesis
      by (simp add: processFile_def processLoop_linesLoop)
  next
    case (Inr y)
    obtain r jf w where y: "y = (r, jf, w)"
      by (cases y)
    with Inr loop have inv: "cache_ok jf w" "routed_ok L outputDir w" "flags_ok w" and c: "closed w = []"
      by simp_all
    obtain e jf1 w1 where wr: "writeRecordToJSONL L E r outputDir jf w = (e, jf1, w1)"
      by (cases "writeRecordToJSONL L E r outputDir jf w")
    from writeRecord_inv [OF inv wr]
    have inv1: "cache_ok jf1 w1" "routed_ok L outputDir w1" "flags_ok w1" and c1: "closed w1 = closed w"
      by simp_all
    have pf: "processFile L E config outputDir inp =
        (case e of Some e' \<Rightarrow> (Some e', w1) | None \<Rightarrow> (None, w1 @ map (\<lambda>(p, h). Close h) jf1))"
      using Stream Inr y wr by (simp add: processFile_def processLoop_linesLoop split: option.splits)
    show ?thesis
    proof (cases e)
      case None
      have "routed_ok L outputDir (w1 @ map (\<lambda>(p, h). Close h) jf1)"
        using inv1(2) by (rule routed_ok_grow [where ps = "[]"])
          (simp_all add: opened_append encoded_append opened_Close encoded_Close)
      with None pf inv1 c1 c show ?thesis
        by (simp add: cache_ok_def opened_append flags_ok_append closed_append
            opened_Close flags_ok_Close closed_Close)
    next
      case (Some e')
      with pf inv1 c1 c show ?thesis
        by (simp add: cache_ok_def)
    qed
  qed
qed

lemma segments_nonempty: "segments L config ls \<noteq> []"
  by (induction ls) (auto split: list.splits)

lemma segments_Cons:
  "segments L config (l # ls) =
     (if isRecordStart L config l then [] # segments L config ls
      else (l # hd (segments L config ls)) # tl (segments L config ls))"
  using segments_nonempty [of L config ls] by (cases "segments L config ls") auto

lemma length_segments:
  "length (segments L config ls) = Suc (length (filter (isRecordStart L config) ls))"
proof (induction ls)
  case Nil
  show ?case by simp
next
  case (Cons l ls)
  have "segments L config ls \<noteq> []"
    by (rule segments_nonempty)
  then have "Suc (length (tl (segments L config ls))) = length (segments L config ls)"
    by (cases "segments L config ls") auto
  with Cons show ?case
    by (simp add: segments_Cons del: segments.simps(2))
qed

lemma writeRecord_ok:
  assumes "writeRecordToJSONL L E r outputDir jf w = (None, jf', w')"
  shows "emitted w' = emitted w @ [r] \<and> (written_ok w \<longrightarrow> written_ok w')"
  using assms
  by (auto simp: writeRecordToJSONL_def encodeTo_def Let_def emitted_def written_ok_def
      list_all_iff opened_append encoded_append less_Suc_eq
      split: option.splits if_splits)

lemma writeRecord_no_fault: "fst (writeRecordToJSONL L no_fault r outputDir jf w) = None"
  by (simp add: writeRecordToJSONL_def encodeTo_def Let_def no_fault_def split: option.splits)

lemma accumulate_Nil: "accumulate L config r [] = r"
  and accumulate_Cons: "accumulate L config r (l # ls) = accumulate L config (processLine L config l r) ls"
  and accumulate_append: "accumulate L config r (ls @ ms) = accumulate L config (accumulate L config r ls) ms"
  by (simp_all add: accumulate_def)

lemma segments_map:
  "accumulate L config Map.empty (hd (segments L config ls))
     # map (accumulate L config Map.empty) (tl (segments L config ls))
   = map (accumulate L config Map.empty) (segments L config ls)"
  using segments_nonempty [of L config ls] by (cases "segments L config ls") auto

lemma linesLoop_ok:
  assumes "linesLoop L E config outputDir ls fin r jf w = Inr (r', jf', w')"
  shows "emitted w' @ [r'] =
           emitted w @ accumulate L config r (hd (segments L config ls))
                       # map (accumulate L config Map.empty) (tl (segments L config ls)) \<and>
         (written_ok w \<longrightarrow> written_ok w')"
  using assms
proof (induction ls arbitrary: r jf w)
  case Nil
  then show ?case
    by (cases fin) (simp_all add: accumulate_Nil)
next
  case (Cons line ls)
  show ?case
  proof (cases "TrimSpace L line \<noteq> RecordStart config")
    case True
    with Cons.prems have "linesLoop L E config outputDir ls fin (processLine L config line r) jf w = Inr (r', jf', w')"
      by simp
    from Cons.IH [OF this] True show ?thesis
      by (simp add: segments_Cons isRecordStart_def accumulate_Cons del: segments.simps(2))
  next
    case False
    obtain e jf1 w1 where wr: "writeRecordToJSONL L E r outputDir jf w = (e, jf1, w1)"
      by (cases "writeRecordToJSONL L E r outputDir jf w")
    with Cons.prems False have e: "e = None"
      and run: "linesLoop L E config outputDir ls fin Map.empty jf1 w1 = Inr (r', jf', w')"
      by (auto split: option.splits)
    from writeRecord_ok [OF wr [unfolded e]]
    have em: "emitted w1 = emitted w @ [r]" and wo: "written_ok w \<longrightarrow> written_ok w1"
      by simp_all
    from Cons.IH [OF run] em wo False show ?thesis
      by (simp add: segments_Cons isRecordStart_def accumulate_Nil segments_map del: segments.simps(2))
  qed
qed

lemma linesLoop_no_fault:
  "\<exists>r' jf' w'. linesLoop L no_fault config outputDir ls EOF r jf w = Inr (r', jf', w')"
proof (induction ls arbitrary: r jf w)
  case Nil
  show ?case by simp
next
  case (Cons line ls)
  obtain e jf1 w1 where wr: "writeRecordToJSONL L no_fault r outputDir jf w = (e, jf1, w1)"
    by (cases "writeRecordToJSONL L no_fault r outputDir jf w")
  with writeRecord_no_fault [of L r outputDir jf w] have "e = None"
    by simp
  with wr Cons.IH [of "processLine L config line r" jf w] Cons.IH [of Map.empty jf1 w1]
  show ?case
    by auto
qed

lemma processFile_ok:
  assumes "fst (processFile L E config outputDir (Stream s fin)) = None"
  shows "emitted (snd (processFile L E config outputDir (Stream s fin))) =
           map (accumulate L config Map.empty) (segments L config (complete_lines s)) \<and>
         written_ok (snd (processFile L E config outputDir (Stream s fin)))"
proof (cases "linesLoop L E config outputDir (complete_lines s) fin Map.empty [] []")
  case (Inl x)
  with assms show ?thesis
    by (simp add: processFile_def processLoop_linesLoop split: prod.splits)
next
  case (Inr y)
  obtain r jf w where y: "y = (r, jf, w)"
    by (cases y)
  obtain e jf1 w1 where wr: "writeRecordToJSONL L E r outputDir jf w = (e, jf1, w1)"
    by (cases "writeRecordToJSONL L E r outputDir jf w")
  with assms Inr y have e: "e = None"
    and pf: "processFile L E config outputDir (Stream s fin) = (None, w1 @ map (\<lambda>(p, h). Close h) jf1)"
    by (auto simp: processFile_def processLoop_linesLoop split: option.splits)
  have w0: "written_ok []"
    by (simp add: written_ok_def)
  from linesLoop_ok [OF Inr [unfolded y]] w0
  have em: "emitted w @ [r] = map (accumulate L config Map.empty) (segments L config (complete_lines s))"
    and wo: "written_ok w"
    by (simp_all add: segments_map emitted_def)
  from writeRecord_ok [OF wr [unfolded e]] wo
  have em1: "emitted w1 = emitted w @ [r]" and wo1: "written_ok w1"
    by simp_all
  have "written_ok (w1 @ map (\<lambda>(p, h). Close h) jf1)"
    using wo1 by (simp add: written_ok_def opened_append encoded_append opened_Close encoded_Close)
  with pf em em1 show ?thesis
    by (simp add: emitted_def encoded_append encoded_Close)
qed

lemma processFile_no_fault:
  "fst (processFile L no_fault config outputDir (Stream s EOF)) = None"
proof -
  obtain r jf w where run: "linesLoop L no_fault config outputDir (complete_lines s) EOF Map.empty [] [] = Inr (r, jf, w)"
    using linesLoop_no_fault [of L config outputDir "complete_lines s" Map.empty "[]" "[]"] by blast
  obtain e jf1 w1 where wr: "writeRecordToJSONL L no_fault r outputDir jf w = (e, jf1, w1)"
    by (cases "writeRecordToJSONL L no_fault r outputDir jf w")
  with writeRecord_no_fault [of L r outputDir jf w] have "e = None"
    by simp
  with run wr show ?thesis
    by (simp add: processFile_def processLoop_linesLoop)
qed

section \<open>More facts about lines and records\<close>

lemma languageOf_formula:
  "languageOf r =
     (case r ''WARC-Identified-Content-Language'' of
        None \<Rightarrow> ''eng''
      | Some v \<Rightarrow> if v = [] then ''eng'' else map (\<lambda>c. if c = CHR '','' then CHR ''_'' else c) v)"
  by (simp add: languageOf_def lookup_def ReplaceAll_def Let_def split: option.splits)

lemma languageOf_lookup:
  "lookup r ''WARC-Identified-Content-Language'' = lookup r' ''WARC-Identified-Content-Language'' \<Longrightarrow>
   languageOf r = languageOf r'"
  by (simp add: languageOf_def)

lemma one_path:
  assumes "distinct ps" and "ps \<noteq> []" and "\<forall>h < length ps. ps ! h = p"
  shows "ps = [p]"
proof -
  have "length ps < 2"
  proof (rule ccontr)
    assume "\<not> length ps < 2"
    then have len: "0 < length ps" "1 < length ps"
      by linarith+
    with assms(3) have "ps ! 0 = ps ! 1"
      by simp
    with assms(1) len show False
      by (simp add: nth_eq_iff_index_eq)
  qed
  with assms(2) have "length ps = 1"
    by (cases ps) auto
  with assms(3) show ?thesis
    by (cases ps) auto
qed

lemma isLine_split: "isLine l \<Longrightarrow> \<exists>b. CHR 0x0A \<notin> set b \<and> l = b @ [CHR 0x0A]"
  by (metis isLine_def append_butlast_last_id)

lemma processLoop_lines:
  assumes "list_all (\<lambda>l. isLine l \<and> \<not> isRecordStart L config l) ls"
  shows "processLoop L E config outputDir (concat ls @ rest) fin r jf w =
         processLoop L E config outputDir rest fin (accumulate L config r ls) jf w"
  using assms
proof (induction ls arbitrary: r)
  case Nil
  show ?case by (simp add: accumulate_Nil)
next
  case (Cons l ls)
  from Cons.prems obtain b where b: "CHR 0x0A \<notin> set b" "l = b @ [CHR 0x0A]"
    using isLine_split [of l] by auto
  then have "ReadString (concat (l # ls) @ rest) = Some (l, concat ls @ rest)"
    using ReadString_line [of b "concat ls @ rest"] by simp
  moreover from Cons.prems have "TrimSpace L l \<noteq> RecordStart config" and "list_all (\<lambda>l. isLine l \<and> \<not> isRecordStart L config l) ls"
    by (simp_all add: isRecordStart_def)
  ultimately show ?case
    using Cons.IH [of "processLine L config l r"]
    by (simp add: processLoop_read accumulate_Cons)
qed

lemma processLine_assigned:
  "processLine L config line r =
     r(assignedKey L config line \<mapsto> the (processLine L config line r (assignedKey L config line)))"
  by (auto simp: processLine_def assignedKey_def Let_def hd_Split length_Split)

lemma processLine_other: "assignedKey L config line \<noteq> k \<Longrightarrow> processLine L config line r k = r k"
  by (subst processLine_assigned) simp

lemma accumulate_other:
  "list_all (\<lambda>l. assignedKey L config l \<noteq> k) ls \<Longrightarrow> accumulate L config r ls k = r k"
  by (induction ls arbitrary: r) (simp_all add: accumulate_Nil accumulate_Cons processLine_other)

section \<open>Running the program on concrete inputs\<close>

text \<open>
  An unfolding of the loop guarded by a test on the stream, which the simplifier can
  apply to a concrete stream until the stream is used up.
\<close>

lemma processLoop_unfold:
  "processLoop L E config outputDir s fin r jf w =
     (if CHR 0x0A \<in> set s
      then (if TrimSpace L (takeWhile (\<lambda>c. c \<noteq> CHR 0x0A) s @ [CHR 0x0A]) \<noteq> RecordStart config
            then processLoop L E config outputDir (tl (dropWhile (\<lambda>c. c \<noteq> CHR 0x0A) s)) fin
                   (processLine L config (takeWhile (\<lambda>c. c \<noteq> CHR 0x0A) s @ [CHR 0x0A]) r) jf w
            else (case writeRecordToJSONL L E r outputDir jf w of
                    (Some e, jf', w') \<Rightarrow> Inl (e, w')
                  | (None, jf', w') \<Rightarrow>
                      processLoop L E config outputDir (tl (dropWhile (\<lambda>c. c \<noteq> CHR 0x0A) s)) fin Map.empty jf' w'))
      else (case fin of EOF \<Rightarrow> Inr (r, jf, w) | Broken \<Rightarrow> Inl (ReadError, w)))"
  by (subst processLoop.simps) (simp add: ReadString_def)

lemmas ascii_eval =
  ascii_def ascii_TrimSpace_def asciiSpace_def ascii_EqualFold_def ascii_lower_def unix_Join_def

lemmas run_eval =
  processFile_def processLoop_unfold writeRecordToJSONL_def encodeTo_def no_fault_def
  languageOf_def lookup_def ReplaceAll_def processLine_def isReservedWord_def Let_def

lemma run_inputAB:
  "processFile ascii no_fault cfgAB ''out'' (Stream ''A:1\<newline>---\<newline>B:2\<newline>'' EOF) =
     (None,
       [MkdirAll ''out/eng'', OpenFile ''out/eng/output.jsonl'' [O_APPEND, O_CREATE, O_WRONLY],
        Encode 0 [''A'' \<mapsto> ''1''], MkdirAll ''out/eng'', Encode 0 [''B'' \<mapsto> ''2''], Close 0])"
  by (simp add: run_eval ascii_eval cfgAB_def)

lemma run_inputLang:
  "processFile ascii no_fault cfgWARC ''out'' (Stream inputLang EOF) =
     (None,
      [MkdirAll ''out/eng_fra'',
       OpenFile ''out/eng_fra/output.jsonl'' [O_APPEND, O_CREATE, O_WRONLY],
       Encode 0 [''WARC-Identified-Content-Language'' \<mapsto> ''eng,fra''],
       MkdirAll ''out/eng'',
       OpenFile ''out/eng/output.jsonl'' [O_APPEND, O_CREATE, O_WRONLY],
       Encode 1 Map.empty,
       Close 0, Close 1])"
  by (simp add: inputLang_def run_eval ascii_eval cfgWARC_def)

section \<open>The claims\<close>

text \<open>
  C1. For the stream of the three lines \<^verbatim>\<open>A:1\<close>, \<^verbatim>\<open>---\<close>, \<^verbatim>\<open>B:2\<close>, each ended by a
  newline, with record start \<^verbatim>\<open>---\<close> and reserved words \<open>A\<close> and \<open>B\<close>, the run without
  faults emits exactly two records, in order: the one mapping \<open>A\<close> to \<open>1\<close>, written when
  the record-start line is read, and the one mapping \<open>B\<close> to \<open>2\<close>, which the loop leaves
  behind at the end of the stream and the call after the loop writes.
\<close>

theorem C1_two_records:
  "processLoop ascii no_fault cfgAB ''out'' ''A:1\<newline>---\<newline>B:2\<newline>'' EOF Map.empty [] [] =
     Inr ([''B'' \<mapsto> ''2''], [(''out/eng/output.jsonl'', 0)],
       [MkdirAll ''out/eng'', OpenFile ''out/eng/output.jsonl'' [O_APPEND, O_CREATE, O_WRONLY],
        Encode 0 [''A'' \<mapsto> ''1'']]) \<and>
   processFile ascii no_fault cfgAB ''out'' (Stream ''A:1\<newline>---\<newline>B:2\<newline>'' EOF) =
     (None,
       [MkdirAll ''out/eng'', OpenFile ''out/eng/output.jsonl'' [O_APPEND, O_CREATE, O_WRONLY],
        Encode 0 [''A'' \<mapsto> ''1''], MkdirAll ''out/eng'', Encode 0 [''B'' \<mapsto> ''2''], Close 0]) \<and>
   emitted (snd (processFile ascii no_fault cfgAB ''out'' (Stream ''A:1\<newline>---\<newline>B:2\<newline>'' EOF))) =
     [[''A'' \<mapsto> ''1''], [''B'' \<mapsto> ''2'']]"
  by (simp add: run_eval ascii_eval cfgAB_def emitted_def)

text \<open>
  C2. Whenever a run returns without error, the records it emitted are exactly the
  records accumulated from the pieces into which the record-start lines cut the
  stream's lines, one per piece and in order, empty pieces included: one emission for
  every record-start line and one more at the end of the stream. Without output faults
  a stream that ends cleanly always gives such a run.
\<close>

theorem C2_emitted_once:
  "(fst (processFile L E config outputDir (Stream s fin)) = None \<longrightarrow>
      emitted (snd (processFile L E config outputDir (Stream s fin))) =
        map (accumulate L config Map.empty) (segments L config (complete_lines s))) \<and>
   fst (processFile L no_fault config outputDir (Stream s EOF)) = None \<and>
   length (segments L config (complete_lines s)) =
     Suc (length (filter (isRecordStart L config) (complete_lines s)))"
  using processFile_ok [of L E config outputDir s fin] processFile_no_fault [of L config outputDir s]
    length_segments [of L config "complete_lines s"]
  by blast

text \<open>
  The stream holding only a record-start line gives two empty records: one for the
  record-start line, one at the end of the stream.
\<close>

theorem C2_emitted_once_witness:
  "fst (processFile ascii no_fault cfgA ''out'' (Stream ''---\<newline>'' EOF)) = None \<and>
   emitted (snd (processFile ascii no_fault cfgA ''out'' (Stream ''---\<newline>'' EOF))) =
     [Map.empty, Map.empty]"
  using C2_emitted_once [of ascii no_fault cfgA "''out''" "''---\<newline>''" EOF]
  by (simp add: accumulate_def isRecordStart_def ascii_eval cfgA_def)

text \<open>
  C3. When the loop reads a line that is not the record start, that holds a colon, and
  whose text before the first colon is matched by \<^verbatim>\<open>EqualFold\<close> against some reserved
  word, it goes on with the record updated at exactly that text (as it stands in the
  line, not lowercased) by the trimmed join of the pieces after the first colon; that
  join is the line's text after its first colon.
\<close>

theorem C3_field_line:
  assumes "ReadString s = Some (line, rest)"
    and "TrimSpace L line \<noteq> RecordStart config"
    and "CHR '':'' \<in> set line"
    and "\<exists>word \<in> set (ReservedWords config). EqualFold L word (takeWhile (\<lambda>c. c \<noteq> CHR '':'') line)"
  shows "processLoop L E config outputDir s fin r jf w =
           processLoop L E config outputDir rest fin
             (r(takeWhile (\<lambda>c. c \<noteq> CHR '':'') line \<mapsto>
                  TrimSpace L (Join (tl (Split line (CHR '':''))) '':''))) jf w \<and>
         Join (tl (Split line (CHR '':''))) '':'' = tl (dropWhile (\<lambda>c. c \<noteq> CHR '':'') line)"
proof -
  from assms(4) have "isReservedWord L config (takeWhile (\<lambda>c. c \<noteq> CHR '':'') line)"
    by (simp add: isReservedWord_def anyEqualFold_iff)
  with assms(1-3) show ?thesis
    by (simp add: processLoop_read processLine_field Join_tl_Split)
qed

text \<open>
  With reserved word \<^verbatim>\<open>WARC-Type\<close>, the line \<^verbatim>\<open>warc-type: response\<close> stores the value
  \<^verbatim>\<open>response\<close> under the key \<^verbatim>\<open>warc-type\<close>.
\<close>

theorem C3_field_line_witness:
  "ReadString ''warc-type: response\<newline>'' = Some (''warc-type: response\<newline>'', []) \<and>
   ascii_EqualFold ''WARC-Type'' ''warc-type'' \<and>
   processLoop ascii no_fault cfgWARC ''out'' ''warc-type: response\<newline>'' EOF Map.empty [] [] =
     Inr ([''warc-type'' \<mapsto> ''response''], [], [])"
proof -
  have rd: "ReadString ''warc-type: response\<newline>'' = Some (''warc-type: response\<newline>'', [])"
    by (simp add: ReadString_def)
  have ns: "TrimSpace ascii ''warc-type: response\<newline>'' \<noteq> RecordStart cfgWARC"
    by (simp add: ascii_eval cfgWARC_def)
  have colon: "CHR '':'' \<in> set ''warc-type: response\<newline>''"
    by simp
  have fold: "ascii_EqualFold ''WARC-Type'' ''warc-type''"
    by (simp add: ascii_eval)
  then have res: "\<exists>word \<in> set (ReservedWords cfgWARC).
      EqualFold ascii word (takeWhile (\<lambda>c. c \<noteq> CHR '':'') ''warc-type: response\<newline>'')"
    by (simp add: cfgWARC_def ascii_def)
  from C3_field_line [OF rd ns colon res, of no_fault "''out''" EOF Map.empty "[]" "[]"] rd fold
  show ?thesis
    by (simp add: processLoop_end ascii_eval)
qed



text \<open>
  C5. In every run, each record encoded went to a handle opened on the path joined from
  the output directory, the record's routing key and \<^verbatim>\<open>output.jsonl\<close>, and so is among
  the lines appended to that file. The routing key is the value of the language field
  with every comma replaced by an underscore, and \<^verbatim>\<open>eng\<close> when the field is absent or
  empty.
\<close>

theorem C5_routing_key:
  assumes "(h, r) \<in> set (encoded (snd (processFile L E config outputDir inp)))"
  shows "h < length (opened (snd (processFile L E config outputDir inp))) \<and>
         opened (snd (processFile L E config outputDir inp)) ! h =
           PathJoin L (PathJoin L outputDir (languageOf r)) ''output.jsonl'' \<and>
         languageOf r =
           (case r ''WARC-Identified-Content-Language'' of
              None \<Rightarrow> ''eng''
            | Some v \<Rightarrow> if v = [] then ''eng'' else map (\<lambda>c. if c = CHR '','' then CHR ''_'' else c) v) \<and>
         r \<in> set (appended (snd (processFile L E config outputDir inp))
                    (PathJoin L (PathJoin L outputDir (languageOf r)) ''output.jsonl''))"
proof -
  let ?w = "snd (processFile L E config outputDir inp)"
  have "routed_ok L outputDir ?w"
    using processFile_inv [of L E config outputDir inp] by simp
  with assms have h: "h < length (opened ?w)" "opened ?w ! h = outputFileOf L outputDir r"
    by (auto simp: routed_ok_def list_all_iff)
  with assms have "r \<in> set (appended ?w (outputFileOf L outputDir r))"
    by (force simp: appended_def)
  with h show ?thesis
    by (simp add: outputFileOf_def languageOf_formula)
qed

text \<open>
  A record with language value \<^verbatim>\<open>eng,fra\<close> goes to \<^verbatim>\<open>eng_fra/output.jsonl\<close>, and a record
  without the field to \<^verbatim>\<open>eng/output.jsonl\<close>, both under the output directory.
\<close>

theorem C5_routing_key_witness:
  "(0, [''WARC-Identified-Content-Language'' \<mapsto> ''eng,fra'']) \<in>
     set (encoded (snd (processFile ascii no_fault cfgWARC ''out'' (Stream inputLang EOF)))) \<and>
   opened (snd (processFile ascii no_fault cfgWARC ''out'' (Stream inputLang EOF))) ! 0 =
     ''out/eng_fra/output.jsonl'' \<and>
   (1, Map.empty) \<in>
     set (encoded (snd (processFile ascii no_fault cfgWARC ''out'' (Stream inputLang EOF)))) \<and>
   opened (snd (processFile ascii no_fault cfgWARC ''out'' (Stream inputLang EOF))) ! 1 =
     ''out/eng/output.jsonl''"
proof -
  let ?w = "snd (processFile ascii no_fault cfgWARC ''out'' (Stream inputLang EOF))"
  have e0: "(0, [''WARC-Identified-Content-Language'' \<mapsto> ''eng,fra'']) \<in> set (encoded ?w)"
    and e1: "(1, Map.empty) \<in> set (encoded ?w)"
    by (simp_all add: run_inputLang)
  from C5_routing_key [OF e0] C5_routing_key [OF e1] e0 e1 show ?thesis
    by (simp add: ascii_def unix_Join_def)
qed

text \<open>
  C6. In every run no path is opened twice, every opening is with the flags
  \<open>O_APPEND\<close>, \<open>O_CREATE\<close>, \<open>O_WRONLY\<close>, and every record encoded went to the handle
  opened on its own output file, so that records with the same output file share one
  handle. When a run returns without error and all the records it emitted bear the same
  language value, exactly one file was opened, once, and the lines appended to it are
  the emitted records in the order of emission (1000 records give 1000 lines).
\<close>

theorem C6_open_once:
  "distinct (opened (snd (processFile L E config outputDir inp))) \<and>
   flags_ok (snd (processFile L E config outputDir inp)) \<and>
   routed_ok L outputDir (snd (processFile L E config outputDir inp)) \<and>
   (fst (processFile L E config outputDir inp) = None \<and>
    (\<forall>r \<in> set (emitted (snd (processFile L E config outputDir inp))).
        lookup r ''WARC-Identified-Content-Language'' = v) \<longrightarrow>
    opened (snd (processFile L E config outputDir inp)) =
      [outputFileOf L outputDir [''WARC-Identified-Content-Language'' \<mapsto> v]] \<and>
    appended (snd (processFile L E config outputDir inp))
      (outputFileOf L outputDir [''WARC-Identified-Content-Language'' \<mapsto> v]) =
      emitted (snd (processFile L E config outputDir inp)))"
proof -
  let ?w = "snd (processFile L E config outputDir inp)"
  let ?p = "outputFileOf L outputDir [''WARC-Identified-Content-Language'' \<mapsto> v]"
  from processFile_inv [of L E config outputDir inp]
  have dist: "distinct (opened ?w)" and routed: "routed_ok L outputDir ?w" and flags: "flags_ok ?w"
    by simp_all
  have "opened ?w = [?p] \<and> appended ?w ?p = emitted ?w"
    if ok: "fst (processFile L E config outputDir inp) = None"
      and same: "\<forall>r \<in> set (emitted ?w). lookup r ''WARC-Identified-Content-Language'' = v"
  proof -
    from ok obtain s fin where inp: "inp = Stream s fin"
      by (cases inp) (auto simp: processFile_def)
    from processFile_ok [OF ok [unfolded inp]] inp
    have em: "emitted ?w = map (accumulate L config Map.empty) (segments L config (complete_lines s))"
      and written: "written_ok ?w"
      by simp_all
    have enc: "h < length (opened ?w) \<and> opened ?w ! h = ?p" if "(h, r) \<in> set (encoded ?w)" for h r
    proof -
      from that have "r \<in> set (emitted ?w)"
        by (force simp: emitted_def)
      with same have "lookup r ''WARC-Identified-Content-Language'' = v"
        by blast
      then have "languageOf r = languageOf [''WARC-Identified-Content-Language'' \<mapsto> v]"
        by (intro languageOf_lookup) (simp add: lookup_def)
      then have "outputFileOf L outputDir r = ?p"
        by (simp add: outputFileOf_def)
      with routed that show ?thesis
        by (auto simp: routed_ok_def list_all_iff)
    qed
    have all: "\<forall>h < length (opened ?w). opened ?w ! h = ?p"
    proof (intro allI impI)
      fix h
      assume "h < length (opened ?w)"
      with written have "h \<in> fst ` set (encoded ?w)"
        by (simp add: written_ok_def list_all_iff)
      then obtain r where "(h, r) \<in> set (encoded ?w)"
        by force
      then show "opened ?w ! h = ?p"
        using enc by blast
    qed
    from em have "emitted ?w \<noteq> []"
      by (simp add: segments_nonempty)
    then obtain h r where "(h, r) \<in> set (encoded ?w)"
      by (cases "encoded ?w") (auto simp: emitted_def)
    with enc have "opened ?w \<noteq> []"
      by fastforce
    with dist all have one: "opened ?w = [?p]"
      by (intro one_path)
    have "filter (\<lambda>(h, r). h < length (opened ?w) \<and> opened ?w ! h = ?p) (encoded ?w) = encoded ?w"
      using enc by (auto simp: filter_id_conv)
    then have "appended ?w ?p = emitted ?w"
      by (simp add: appended_def emitted_def)
    with one show ?thesis
      by simp
  qed
  with dist flags routed show ?thesis
    by blast
qed

text \<open>
  The two records of the stream \<^verbatim>\<open>A:1\<close>, \<^verbatim>\<open>---\<close>, \<^verbatim>\<open>B:2\<close> bear no language value: one
  file is opened, and it receives both records in order.
\<close>

theorem C6_open_once_witness:
  "fst (processFile ascii no_fault cfgAB ''out'' (Stream ''A:1\<newline>---\<newline>B:2\<newline>'' EOF)) = None \<and>
   emitted (snd (processFile ascii no_fault cfgAB ''out'' (Stream ''A:1\<newline>---\<newline>B:2\<newline>'' EOF))) =
     [[''A'' \<mapsto> ''1''], [''B'' \<mapsto> ''2'']] \<and>
   opened (snd (processFile ascii no_fault cfgAB ''out'' (Stream ''A:1\<newline>---\<newline>B:2\<newline>'' EOF))) =
     [''out/eng/output.jsonl''] \<and>
   appended (snd (processFile ascii no_fault cfgAB ''out'' (Stream ''A:1\<newline>---\<newline>B:2\<newline>'' EOF)))
     ''out/eng/output.jsonl'' = [[''A'' \<mapsto> ''1''], [''B'' \<mapsto> ''2'']]"
proof -
  let ?run = "processFile ascii no_fault cfgAB ''out'' (Stream ''A:1\<newline>---\<newline>B:2\<newline>'' EOF)"
  have ok: "fst ?run = None"
    and em: "emitted (snd ?run) = [[''A'' \<mapsto> ''1''], [''B'' \<mapsto> ''2'']]"
    by (simp_all add: run_inputAB emitted_def)
  then have same: "\<forall>r \<in> set (emitted (snd ?run)). lookup r ''WARC-Identified-Content-Language'' = []"
    by (simp add: lookup_def)
  have p: "outputFileOf ascii ''out'' [''WARC-Identified-Content-Language'' \<mapsto> []] = ''out/eng/output.jsonl''"
    by (simp add: outputFileOf_def languageOf_def lookup_def ReplaceAll_def ascii_def unix_Join_def)
  from C6_open_once [of ascii no_fault cfgAB "''out''" "Stream ''A:1\<newline>---\<newline>B:2\<newline>'' EOF" "[]"]
    ok same
  have "opened (snd ?run) = [outputFileOf ascii ''out'' [''WARC-Identified-Content-Language'' \<mapsto> []]] \<and>
        appended (snd ?run) (outputFileOf ascii ''out'' [''WARC-Identified-Content-Language'' \<mapsto> []]) =
          emitted (snd ?run)"
    by blast
  with ok em p show ?thesis
    by simp
qed




text \<open>
  C8, as amended. Among the lines of one record, the entry under the key text of a
  field line holds the value of that line as long as no later line assigns the very
  same key text: the last line with byte-identical key text wins. A later line that
  spells the reserved word in another case assigns another key and leaves the entry
  alone.
\<close>

theorem C8_last_same_key_wins:
  assumes "list_all (\<lambda>l. isLine l \<and> \<not> isRecordStart L config l) (pre @ line # post)"
    and "CHR '':'' \<in> set line"
    and "isReservedWord L config (takeWhile (\<lambda>c. c \<noteq> CHR '':'') line)"
    and "list_all (\<lambda>l. assignedKey L config l \<noteq> takeWhile (\<lambda>c. c \<noteq> CHR '':'') line) post"
  shows "processLoop L E config outputDir (concat (pre @ line # post) @ rest) fin r jf w =
           processLoop L E config outputDir rest fin (accumulate L config r (pre @ line # post)) jf w \<and>
         accumulate L config r (pre @ line # post) (takeWhile (\<lambda>c. c \<noteq> CHR '':'') line) =
           Some (TrimSpace L (Join (tl (Split line (CHR '':''))) '':''))"
proof -
  let ?k = "takeWhile (\<lambda>c. c \<noteq> CHR '':'') line"
  have "accumulate L config r (pre @ line # post) ?k =
        accumulate L config (processLine L config line (accumulate L config r pre)) post ?k"
    by (simp add: accumulate_append accumulate_Cons)
  also have "\<dots> = processLine L config line (accumulate L config r pre) ?k"
    using assms(4) by (rule accumulate_other)
  also have "\<dots> = Some (TrimSpace L (Join (tl (Split line (CHR '':''))) '':''))"
    using assms(2,3) by (simp add: processLine_field)
  finally show ?thesis
    using processLoop_lines [OF assms(1)] by simp
qed

text \<open>
  With reserved word \<open>A\<close>, the lines \<^verbatim>\<open>A:1\<close>, \<^verbatim>\<open>A:2\<close>, \<^verbatim>\<open>a:3\<close> leave \<open>2\<close> under \<open>A\<close>
  and \<open>3\<close> under \<open>a\<close>.
\<close>

theorem C8_last_same_key_wins_witness:
  "processLoop ascii no_fault cfgA ''out'' ''A:1\<newline>A:2\<newline>a:3\<newline>'' EOF Map.empty [] [] =
     Inr ([''A'' \<mapsto> ''2'', ''a'' \<mapsto> ''3''], [], [])"
proof -
  have lines: "list_all (\<lambda>l. isLine l \<and> \<not> isRecordStart ascii cfgA l) ([''A:1\<newline>''] @ ''A:2\<newline>'' # [''a:3\<newline>''])"
    by (simp add: isLine_def isRecordStart_def ascii_eval cfgA_def)
  have colon: "CHR '':'' \<in> set ''A:2\<newline>''"
    by simp
  have res: "isReservedWord ascii cfgA (takeWhile (\<lambda>c. c \<noteq> CHR '':'') ''A:2\<newline>'')"
    by (simp add: isReservedWord_def ascii_eval cfgA_def)
  have later: "list_all (\<lambda>l. assignedKey ascii cfgA l \<noteq> takeWhile (\<lambda>c. c \<noteq> CHR '':'') ''A:2\<newline>'') [''a:3\<newline>'']"
    by (simp add: assignedKey_def isReservedWord_def ascii_eval cfgA_def)
  have acc: "accumulate ascii cfgA Map.empty [''A:1\<newline>'', ''A:2\<newline>'', ''a:3\<newline>''] =
      [''A'' \<mapsto> ''2'', ''a'' \<mapsto> ''3'']"
    by (simp add: accumulate_def processLine_def isReservedWord_def Let_def ascii_eval cfgA_def)
  from C8_last_same_key_wins [OF lines colon res later, of no_fault "''out''" "[]" EOF Map.empty "[]" "[]"]
  show ?thesis
    by (simp add: acc processLoop_end)
qed

text \<open>
  C8 as stated fails: with reserved word \<open>A\<close>, the lines \<^verbatim>\<open>A:1\<close> and \<^verbatim>\<open>a:2\<close> are two
  occurrences of the same reserved field, and the record emitted holds two entries, the
  one under \<open>A\<close> still with the value of the first line.
\<close>

theorem C8_counterexample:
  "ascii_EqualFold ''A'' ''A'' \<and> ascii_EqualFold ''A'' ''a'' \<and>
   emitted (snd (processFile ascii no_fault cfgA ''out'' (Stream ''A:1\<newline>a:2\<newline>'' EOF))) =
     [[''A'' \<mapsto> ''1'', ''a'' \<mapsto> ''2'']] \<and>
   [''A'' \<mapsto> ''1'', ''a'' \<mapsto> ''2''] ''A'' \<noteq> Some ''2'' \<and>
   dom [''A'' \<mapsto> ''1'', ''a'' \<mapsto> ''2''] = {''A'', ''a''}"
  by (simp add: run_eval ascii_eval cfgA_def emitted_def) auto

text \<open>
  C9. The handles are closed only after the call that follows the loop has succeeded.
  A run that ends on a read error, and a run that ends on a write error, each leave
  the handle they opened unclosed: their traces hold no \<open>Close\<close> event. (Lemma
  \<open>processFile_inv\<close> has the general fact: a run that returns an error closed nothing,
  a run that returns without error closed every handle once.)
\<close>

theorem C9_error_path_no_close:
  "processFile ascii no_fault cfgAB ''out'' (Stream ''A:1\<newline>---\<newline>B:2'' Broken) =
     (Some ReadError,
      [MkdirAll ''out/eng'', OpenFile ''out/eng/output.jsonl'' [O_APPEND, O_CREATE, O_WRONLY],
       Encode 0 [''A'' \<mapsto> ''1'']]) \<and>
   processFile ascii second_write_fails cfgAB ''out'' (Stream ''A:1\<newline>---\<newline>B:2\<newline>'' EOF) =
     (Some WriteError,
      [MkdirAll ''out/eng'', OpenFile ''out/eng/output.jsonl'' [O_APPEND, O_CREATE, O_WRONLY],
       Encode 0 [''A'' \<mapsto> ''1''], MkdirAll ''out/eng'']) \<and>
   closed [MkdirAll ''out/eng'', OpenFile ''out/eng/output.jsonl'' [O_APPEND, O_CREATE, O_WRONLY],
       Encode 0 [''A'' \<mapsto> ''1'']] = [] \<and>
   closed [MkdirAll ''out/eng'', OpenFile ''out/eng/output.jsonl'' [O_APPEND, O_CREATE, O_WRONLY],
       Encode 0 [''A'' \<mapsto> ''1''], MkdirAll ''out/eng''] = []"
  by (simp add: processFile_def processLoop_unfold writeRecordToJSONL_def encodeTo_def no_fault_def
      second_write_fails_def languageOf_def lookup_def ReplaceAll_def processLine_def
      isReservedWord_def Let_def ascii_eval cfgAB_def)

text \<open>
  C10. Bytes after the last newline of the stream change nothing: the run on a stream
  followed by bytes without a newline is the run on the stream without them, with the
  same result and the same trace, whatever those bytes are.
\<close>

theorem C10_unterminated_tail:
  assumes "CHR 0x0A \<notin> set t"
  shows "processFile L E config outputDir (Stream (s @ t) fin) =
           processFile L E config outputDir (Stream s fin) \<and>
         complete_lines (s @ t) = complete_lines s"
  using assms by (simp add: processFile_def processLoop_linesLoop complete_lines_tail)

text \<open>
  The unterminated text \<^verbatim>\<open>---\<close> at the end of the stream is not taken as a record
  start: one record is emitted, at the end of the stream.
\<close>

theorem C10_unterminated_tail_witness:
  "CHR 0x0A \<notin> set ''---'' \<and>
   processFile ascii no_fault cfgAB ''out'' (Stream ''A:1\<newline>---'' EOF) =
     (None,
      [MkdirAll ''out/eng'', OpenFile ''out/eng/output.jsonl'' [O_APPEND, O_CREATE, O_WRONLY],
       Encode 0 [''A'' \<mapsto> ''1''], Close 0])"
proof -
  have nl: "CHR 0x0A \<notin> set ''---''"
    by simp
  have "processFile ascii no_fault cfgAB ''out'' (Stream ''A:1\<newline>'' EOF) =
     (None,
      [MkdirAll ''out/eng'', OpenFile ''out/eng/output.jsonl'' [O_APPEND, O_CREATE, O_WRONLY],
       Encode 0 [''A'' \<mapsto> ''1''], Close 0])"
    by (simp add: run_eval ascii_eval cfgAB_def)
  with C10_unterminated_tail [OF nl, of ascii no_fault cfgAB "''out''" "''A:1\<newline>''" EOF] nl
  show ?thesis
    by simp
qed

end
